theory Spec2Isabelle
  imports Complex_Main
begin

section \<open>Errors and indexing\<close>

text \<open>
  The exceptions that the three functions of \<^verbatim>\<open>seq2seq/inference/inference.py\<close> can meet.
  \<open>OutOfRangeError\<close> is \<^verbatim>\<open>tf.errors.OutOfRangeError\<close>, \<open>IndexError\<close> and \<open>ValueError\<close>
  are Python's, and \<open>OtherError\<close> stands for any other exception raised by the session.
\<close>

datatype error = OutOfRangeError | IndexError | ValueError | OtherError

text \<open>
  \<^verbatim>\<open>xs[i]\<close> for an index \<open>i \<ge> 0\<close> (every index of the source comes from \<^verbatim>\<open>range\<close> or
  from \<^verbatim>\<open>np.argmax\<close>): the element, or IndexError when the index is out of range.
\<close>

definition getitem :: "'a list \<Rightarrow> nat \<Rightarrow> error + 'a" where
  "getitem xs i = (if i < length xs then Inr (xs ! i) else Inl IndexError)"

section \<open>\<^verbatim>\<open>unk_replace\<close>\<close>

text \<open>
  \<^verbatim>\<open>np.argmax(scores)\<close> on a one-dimensional array, as numpy documents it: the index of the
  maximum, the first one when the maximum occurs several times, and ValueError on an
  empty array. The scan keeps the best value seen so far and its index and replaces them
  only on a strictly greater value. Scores are the elements of a linear order; an IEEE
  NaN, which is not comparable, is outside this model.
\<close>

fun argmax_scan :: "'a::linorder list \<Rightarrow> nat \<Rightarrow> 'a \<Rightarrow> nat \<Rightarrow> nat" where
  "argmax_scan [] i best best_index = best_index"
| "argmax_scan (x # xs) i best best_index =
     (if best < x then argmax_scan xs (Suc i) x i
      else argmax_scan xs (Suc i) best best_index)"

definition argmax :: "'a::linorder list \<Rightarrow> error + nat" where
  "argmax scores =
     (case scores of
        [] \<Rightarrow> Inl ValueError
      | x # xs \<Rightarrow> Inr (argmax_scan xs (Suc 0) x 0))"

text \<open>
  A Python 3 string is a sequence of code points. The type \<open>string\<close> holds the strings
  whose code points are below 256, one \<open>char\<close> for each code point; text with other code
  points is outside the model.

  The body of the \<^verbatim>\<open>for\<close> loop of \<^verbatim>\<open>unk_replace\<close> (lines 159 to 167): the value appended
  to \<^verbatim>\<open>result\<close> for one pair \<^verbatim>\<open>(token, scores)\<close>, or the exception raised. The optional
  \<^verbatim>\<open>mapping\<close> is \<open>None\<close> or \<open>Some\<close> dictionary.
\<close>

definition unk_replace_body ::
  "string list \<Rightarrow> (string \<rightharpoonup> string) option \<Rightarrow> string \<Rightarrow> 'a::linorder list \<Rightarrow> error + string"
where
  "unk_replace_body source_tokens mapping token scores =
     (if token = ''UNK'' then
        (case argmax scores of
           Inl e \<Rightarrow> Inl e
         | Inr max_score_index \<Rightarrow>
             (case getitem source_tokens max_score_index of
                Inl e \<Rightarrow> Inl e
              | Inr chosen_source_token \<Rightarrow>
                  Inr (case mapping of
                         None \<Rightarrow> chosen_source_token
                       | Some m \<Rightarrow>
                           (case m chosen_source_token of
                              None \<Rightarrow> chosen_source_token
                            | Some new_target \<Rightarrow> new_target))))
      else Inr token)"

text \<open>
  The loop over \<^verbatim>\<open>zip(predicted_tokens, attention_scores)\<close>, with \<^verbatim>\<open>result\<close> as the
  accumulator; an exception of the body ends the call.
\<close>

fun unk_replace_loop ::
  "string list \<Rightarrow> (string \<rightharpoonup> string) option \<Rightarrow> (string \<times> 'a::linorder list) list
     \<Rightarrow> string list \<Rightarrow> error + string list"
where
  "unk_replace_loop source_tokens mapping [] result = Inr result"
| "unk_replace_loop source_tokens mapping ((token, scores) # rest) result =
     (case unk_replace_body source_tokens mapping token scores of
        Inl e \<Rightarrow> Inl e
      | Inr new_target \<Rightarrow>
          unk_replace_loop source_tokens mapping rest (result @ [new_target]))"

text \<open>
  \<^verbatim>\<open>np.array(result)\<close> (line 168): a list of strings becomes a numpy array of fixed-width
  strings, padded with NUL characters, and a string read from such an array comes without
  its trailing NUL characters. The array is modelled by the list of the strings that it
  gives back.
\<close>

definition strip_trailing_nul :: "string \<Rightarrow> string" where
  "strip_trailing_nul s = rev (dropWhile (\<lambda>c. c = CHR 0x00) (rev s))"

definition np_array :: "string list \<Rightarrow> string list" where
  "np_array result = map strip_trailing_nul result"

definition unk_replace ::
  "string list \<Rightarrow> string list \<Rightarrow> 'a::linorder list list \<Rightarrow> (string \<rightharpoonup> string) option
     \<Rightarrow> error + string list"
where
  "unk_replace source_tokens predicted_tokens attention_scores mapping =
     (case unk_replace_loop source_tokens mapping (zip predicted_tokens attention_scores) [] of
        Inl e \<Rightarrow> Inl e
      | Inr result \<Rightarrow> Inr (np_array result))"

text \<open>A string that ends in a NUL character is the only kind that \<^verbatim>\<open>np.array\<close> changes.\<close>

definition ends_in_nul :: "string \<Rightarrow> bool" where
  "ends_in_nul s \<longleftrightarrow> s \<noteq> [] \<and> last s = CHR 0x00"

text \<open>
  What the specification calls the lowest index among the maxima of a row: \<open>j\<close> is a
  position of the row, no entry is greater than the entry at \<open>j\<close>, and every entry before
  \<open>j\<close> is strictly smaller.
\<close>

definition first_max :: "'a::linorder list \<Rightarrow> nat \<Rightarrow> bool" where
  "first_max scores j \<longleftrightarrow>
     j < length scores \<and> (\<forall>i<length scores. scores ! i \<le> scores ! j)
     \<and> (\<forall>i<j. scores ! i < scores ! j)"

section \<open>\<^verbatim>\<open>create_predictions_iter\<close>\<close>

text \<open>
  A fetched batch is the dictionary returned by \<^verbatim>\<open>sess.run(predictions_dict)\<close>: field
  names with arrays, kept as an association list in the dictionary's iteration order, each
  array as the list of its slices along the first dimension. A yielded prediction is a
  dictionary from field names to one slice each.

  The session is what the generator observes of it: the batches that successive calls of
  \<^verbatim>\<open>sess.run\<close> return, and the exception that the call after the last batch raises
  (\<open>OutOfRangeError\<close> when the feeder queues are exhausted). The queue runners started
  and stopped by the \<^verbatim>\<open>with\<close> block are not part of the model.
\<close>

type_synonym 'v batch = "(string \<times> 'v list) list"

type_synonym 'v prediction = "(string \<times> 'v) list"

record 'v session =
  fetched :: "'v batch list"
  raises :: error

text \<open>\<^verbatim>\<open>list(predictions_.values())[0].shape[0]\<close>; IndexError on a dictionary with no field.\<close>

definition batch_length :: "'v batch \<Rightarrow> error + nat" where
  "batch_length predictions =
     (case getitem (map snd predictions) 0 of
        Inl e \<Rightarrow> Inl e
      | Inr value \<Rightarrow> Inr (length value))"

text \<open>
  \<^verbatim>\<open>{key: value[i] for key, value in predictions_.items()}\<close>: the fields are indexed in
  order, and the first field that has no entry \<open>i\<close> raises IndexError.
\<close>

fun slice_at :: "'v batch \<Rightarrow> nat \<Rightarrow> error + 'v prediction" where
  "slice_at [] i = Inr []"
| "slice_at ((key, value) # items) i =
     (case getitem value i of
        Inl e \<Rightarrow> Inl e
      | Inr x \<Rightarrow>
          (case slice_at items i of
             Inl e \<Rightarrow> Inl e
           | Inr r \<Rightarrow> Inr ((key, x) # r)))"

text \<open>
  The \<^verbatim>\<open>for i in range(batch_length)\<close> loop. The result is the list of the predictions
  yielded, in the order of the yields, and the exception that ended the loop, if any:
  the predictions yielded before an exception have already reached the consumer.
\<close>

fun yield_each :: "'v batch \<Rightarrow> nat list \<Rightarrow> 'v prediction list \<times> error option" where
  "yield_each predictions [] = ([], None)"
| "yield_each predictions (i # rest) =
     (case slice_at predictions i of
        Inl e \<Rightarrow> ([], Some e)
      | Inr r \<Rightarrow>
          (case yield_each predictions rest of
             (rs, e) \<Rightarrow> (r # rs, e)))"

text \<open>The body of the \<^verbatim>\<open>try\<close> block once \<^verbatim>\<open>sess.run\<close> has returned a batch (lines 82 to 84).\<close>

definition flatten_batch :: "'v batch \<Rightarrow> 'v prediction list \<times> error option" where
  "flatten_batch predictions =
     (case batch_length predictions of
        Inl e \<Rightarrow> ([], Some e)
      | Inr n \<Rightarrow> yield_each predictions [0..<n])"

text \<open>
  \<^verbatim>\<open>except tf.errors.OutOfRangeError: break\<close>: that exception ends the generator normally
  (\<open>None\<close>), any other one propagates to the consumer.
\<close>

definition except_out_of_range :: "error \<Rightarrow> error option" where
  "except_out_of_range e = (if e = OutOfRangeError then None else Some e)"

text \<open>The \<^verbatim>\<open>while True\<close> loop: one iteration for each call of \<^verbatim>\<open>sess.run\<close>.\<close>

fun predictions_loop :: "'v batch list \<Rightarrow> error \<Rightarrow> 'v prediction list \<times> error option" where
  "predictions_loop [] final = ([], except_out_of_range final)"
| "predictions_loop (predictions # later) final =
     (case flatten_batch predictions of
        (rs, Some e) \<Rightarrow> (rs, except_out_of_range e)
      | (rs, None) \<Rightarrow>
          (case predictions_loop later final of
             (rs', ending) \<Rightarrow> (rs @ rs', ending)))"

definition create_predictions_iter :: "'v session \<Rightarrow> 'v prediction list \<times> error option" where
  "create_predictions_iter sess = predictions_loop (fetched sess) (raises sess)"

text \<open>
  The words of the specification. The batch size is the leading count of a field; a batch
  is consistent when it has a field and all its fields have that count; the record at
  index \<open>i\<close> holds the slice \<open>i\<close> of every field; the records of a batch are those at the
  indices \<open>0..batch_size - 1\<close>, in that order.
\<close>

definition batch_size :: "'v batch \<Rightarrow> nat" where
  "batch_size b = (case b of [] \<Rightarrow> 0 | (key, value) # items \<Rightarrow> length value)"

definition consistent_batch :: "'v batch \<Rightarrow> bool" where
  "consistent_batch b \<longleftrightarrow> b \<noteq> [] \<and> (\<forall>value\<in>set (map snd b). length value = batch_size b)"

definition record_at :: "'v batch \<Rightarrow> nat \<Rightarrow> 'v prediction" where
  "record_at b i = map (\<lambda>(key, value). (key, value ! i)) b"

definition records_of :: "'v batch \<Rightarrow> 'v prediction list" where
  "records_of b = map (record_at b) [0..<batch_size b]"

text \<open>The smallest leading count among the fields of a batch that has a field.\<close>

definition min_count :: "'v batch \<Rightarrow> nat" where
  "min_count b = Min (set (map length (map snd b)))"

section \<open>\<^verbatim>\<open>get_unk_mapping\<close>\<close>

text \<open>
  \<^verbatim>\<open>s.split(sep)\<close> for a one-character separator: the fields between the separators, at
  least one. \<^verbatim>\<open>s.strip()\<close> removes the leading and the trailing whitespace; the whitespace
  characters below 256 of a Python 3 string are the code points 9 to 13, 28 to 32, 133
  (U+0085) and 160 (U+00A0).
\<close>

fun str_split :: "char \<Rightarrow> string \<Rightarrow> string list" where
  "str_split sep [] = [[]]"
| "str_split sep (c # cs) =
     (if c = sep then [] # str_split sep cs
      else (c # hd (str_split sep cs)) # tl (str_split sep cs))"

definition isspace :: "char \<Rightarrow> bool" where
  "isspace c \<longleftrightarrow>
     c \<in> set [CHR 0x09, CHR 0x0A, CHR 0x0B, CHR 0x0C, CHR 0x0D,
              CHR 0x1C, CHR 0x1D, CHR 0x1E, CHR 0x1F, CHR 0x20, CHR 0x85, CHR 0xA0]"

definition str_strip :: "string \<Rightarrow> string" where
  "str_strip s = rev (dropWhile isspace (rev (dropWhile isspace s)))"

text \<open>
  A dictionary of Python 3.7 or later keeps its keys in insertion order, and an
  assignment to a key that is present keeps the key's position: an association list with
  distinct keys. \<^verbatim>\<open>d[k] = v\<close>:
\<close>

fun setitem :: "('k \<times> 'v) list \<Rightarrow> 'k \<Rightarrow> 'v \<Rightarrow> ('k \<times> 'v) list" where
  "setitem [] k v = [(k, v)]"
| "setitem ((k', v') # d) k v =
     (if k' = k then (k', v) # d else (k', v') # setitem d k v)"

text \<open>
  \<^verbatim>\<open>dict(seq)\<close> on a list of lists: the elements are taken in order, each must have
  exactly two members, key and value; an element of another length raises ValueError.
\<close>

fun dict_from :: "(string \<times> string) list \<Rightarrow> string list list \<Rightarrow> error + (string \<times> string) list" where
  "dict_from d [] = Inr d"
| "dict_from d (elem # seq) =
     (case elem of
        [k, v] \<Rightarrow> dict_from (setitem d k v) seq
      | _ \<Rightarrow> Inl ValueError)"

text \<open>\<^verbatim>\<open>{k.strip(): v.strip() for k, v in mapping.items()}\<close>, item by item.\<close>

fun strip_items :: "(string \<times> string) list \<Rightarrow> (string \<times> string) list \<Rightarrow> (string \<times> string) list" where
  "strip_items d [] = d"
| "strip_items d ((k, v) # items) = strip_items (setitem d (str_strip k) (str_strip v)) items"

text \<open>
  \<^verbatim>\<open>get_unk_mapping\<close>, on the list \<^verbatim>\<open>lines\<close> that \<^verbatim>\<open>mapping_file.readlines()\<close> returns
  (reading the file is not part of the model).
\<close>

definition get_unk_mapping :: "string list \<Rightarrow> error + (string \<times> string) list" where
  "get_unk_mapping lines =
     (case dict_from [] (map (\<lambda>l. take 2 (str_split CHR 0x09 l)) lines) of
        Inl e \<Rightarrow> Inl e
      | Inr mapping \<Rightarrow> Inr (strip_items [] mapping))"

text \<open>
  The words of the specification: the source token of a line is its first tab-separated
  field, trimmed, the target its second field, trimmed; in the table where the last line
  wins, the value of a key is the target of the last line that has the key as source token.
\<close>

definition raw_source :: "string \<Rightarrow> string" where
  "raw_source l = hd (str_split CHR 0x09 l)"

definition line_source :: "string \<Rightarrow> string" where
  "line_source l = str_strip (raw_source l)"

definition raw_target :: "string \<Rightarrow> string" where
  "raw_target l = str_split CHR 0x09 l ! 1"

definition line_target :: "string \<Rightarrow> string" where
  "line_target l = str_strip (raw_target l)"

text \<open>
  A well-formed line of the mapping file: the source field, a tab, the target field and
  the newline that \<^verbatim>\<open>readlines\<close> keeps.
\<close>

definition mapping_line :: "string \<Rightarrow> string \<Rightarrow> string" where
  "mapping_line source target = source @ [CHR 0x09] @ target @ [CHR 0x0A]"

definition last_line_wins :: "string list \<Rightarrow> string \<rightharpoonup> string" where
  "last_line_wins lines = map_of (rev (map (\<lambda>l. (line_source l, line_target l)) lines))"

text \<open>
  A source token can be spelled in several ways before trimming. The spellings of a token
  \<open>k\<close> in a file are the untrimmed first fields that trim to \<open>k\<close>, in the order of their
  first occurrence in the file; the newest spelling is the one that occurs first the
  latest. The last spelling of \<open>k\<close> is the untrimmed first field of the last line for \<open>k\<close>,
  and \<open>last_line_spelled\<close> gives, for an untrimmed first field, the trimmed target of the
  last line that has it.
\<close>

fun first_occurrences :: "'a list \<Rightarrow> 'a list" where
  "first_occurrences [] = []"
| "first_occurrences (x # xs) = x # filter (\<lambda>y. y \<noteq> x) (first_occurrences xs)"

definition spellings :: "string list \<Rightarrow> string \<Rightarrow> string list" where
  "spellings lines k =
     filter (\<lambda>r. str_strip r = k) (first_occurrences (map raw_source lines))"

definition newest_spelling :: "string list \<Rightarrow> string \<rightharpoonup> string" where
  "newest_spelling lines k =
     (if spellings lines k = [] then None else Some (last (spellings lines k)))"

definition last_spelling :: "string list \<Rightarrow> string \<rightharpoonup> string" where
  "last_spelling lines = map_of (rev (map (\<lambda>l. (line_source l, raw_source l)) lines))"

definition last_line_spelled :: "string list \<Rightarrow> string \<rightharpoonup> string" where
  "last_line_spelled lines = map_of (rev (map (\<lambda>l. (raw_source l, line_target l)) lines))"

section \<open>Properties of \<^verbatim>\<open>unk_replace\<close>\<close>

subsection \<open>The scan of \<^verbatim>\<open>np.argmax\<close> and the loop\<close>

lemma argmax_scan_first_max:
  assumes "first_max ys bi" and "best = ys ! bi" and "i = length ys"
  shows "first_max (ys @ xs) (argmax_scan xs i best bi)"
  using assms
proof (induction xs arbitrary: ys i best bi)
  case Nil
  then show ?case by simp
next
  case (Cons x xs)
  show ?case
  proof (cases "best < x")
    case True
    have "first_max (ys @ [x]) i"
      using Cons.prems True
      by (auto simp: first_max_def nth_append less_Suc_eq le_less_trans dest: leD)
    from Cons.IH[OF this, of x "Suc i"] Cons.prems True show ?thesis
      by simp
  next
    case False
    have "first_max (ys @ [x]) bi"
      using Cons.prems False
      by (auto simp: first_max_def nth_append less_Suc_eq)
    from Cons.IH[OF this, of best "Suc i"] Cons.prems False show ?thesis
      by (simp add: first_max_def nth_append)
  qed
qed

lemma argmax_first_max:
  assumes "argmax scores = Inr j"
  shows "first_max scores j"
proof (cases scores)
  case Nil
  with assms show ?thesis by (simp add: argmax_def)
next
  case (Cons x xs)
  have "first_max [x] 0" by (simp add: first_max_def)
  from argmax_scan_first_max[OF this, of x "Suc 0" xs]
  have "first_max (x # xs) (argmax_scan xs (Suc 0) x 0)" by simp
  with Cons assms show ?thesis by (simp add: argmax_def)
qed

lemma argmax_empty: "argmax scores = Inl e \<longleftrightarrow> scores = [] \<and> e = ValueError"
  by (cases scores) (auto simp: argmax_def)

lemma unk_replace_loop_Inr:
  "unk_replace_loop src m ps acc = Inr out \<Longrightarrow>
     \<exists>ys. out = acc @ ys \<and> list_all2 (\<lambda>p y. unk_replace_body src m (fst p) (snd p) = Inr y) ps ys"
proof (induction ps arbitrary: acc)
  case Nil
  then show ?case by simp
next
  case (Cons p ps)
  obtain token scores where p: "p = (token, scores)" by (cases p)
  from Cons.prems p obtain y where y: "unk_replace_body src m token scores = Inr y"
    and rest: "unk_replace_loop src m ps (acc @ [y]) = Inr out"
    by (auto split: sum.splits)
  from Cons.IH[OF rest] obtain ys where "out = (acc @ [y]) @ ys"
    and "list_all2 (\<lambda>p y. unk_replace_body src m (fst p) (snd p) = Inr y) ps ys" by blast
  with y p show ?case by (intro exI[of _ "y # ys"]) simp
qed

lemma strip_trailing_nul_id: "\<not> ends_in_nul s \<Longrightarrow> strip_trailing_nul s = s"
proof (induction s rule: rev_induct)
  case Nil
  then show ?case by (simp add: strip_trailing_nul_def)
next
  case (snoc c s)
  then show ?case by (simp add: strip_trailing_nul_def ends_in_nul_def)
qed

lemma unk_replace_nth:
  assumes "unk_replace src pred att m = Inr out"
  shows "length out = min (length pred) (length att)"
    and "t < length pred \<Longrightarrow> t < length att \<Longrightarrow>
           \<exists>y. unk_replace_body src m (pred ! t) (att ! t) = Inr y \<and> out ! t = strip_trailing_nul y"
proof -
  from assms obtain res where r: "unk_replace_loop src m (zip pred att) [] = Inr res"
    and o: "out = np_array res"
    by (auto simp: unk_replace_def split: sum.splits)
  from unk_replace_loop_Inr[OF r]
  have l: "list_all2 (\<lambda>p y. unk_replace_body src m (fst p) (snd p) = Inr y) (zip pred att) res"
    by simp
  then have len: "length res = min (length pred) (length att)"
    by (auto dest: list_all2_lengthD)
  with o show "length out = min (length pred) (length att)"
    by (simp add: np_array_def)
  show "\<exists>y. unk_replace_body src m (pred ! t) (att ! t) = Inr y \<and> out ! t = strip_trailing_nul y"
    if "t < length pred" "t < length att"
  proof -
    from list_all2_nthD[OF l, of t] that
    have "unk_replace_body src m (pred ! t) (att ! t) = Inr (res ! t)" by simp
    moreover from that len o have "out ! t = strip_trailing_nul (res ! t)"
      by (simp add: np_array_def)
    ultimately show ?thesis by blast
  qed
qed

lemma unk_replace_loop_no_unk:
  "\<forall>p\<in>set ps. fst p \<noteq> ''UNK'' \<Longrightarrow> unk_replace_loop src m ps acc = Inr (acc @ map fst ps)"
  by (induction ps arbitrary: acc) (auto simp: unk_replace_body_def)

lemma map_fst_zip_take: "map fst (zip xs ys) = take (length ys) xs"
  by (induction xs ys rule: list_induct2') simp_all

lemma zip_take_both: "zip (take (length ys) xs) (take (length xs) ys) = zip xs ys"
  by (induction xs ys rule: list_induct2') simp_all

lemma unk_replace_body_pass: "token \<noteq> ''UNK'' \<Longrightarrow> unk_replace_body src m token scores = Inr token"
  by (simp add: unk_replace_body_def)

lemma unk_replace_body_unk:
  assumes "unk_replace_body src m ''UNK'' scores = Inr y"
  shows "\<exists>j chosen. argmax scores = Inr j \<and> getitem src j = Inr chosen \<and>
           y = (case m of None \<Rightarrow> chosen
                | Some mp \<Rightarrow> (case mp chosen of None \<Rightarrow> chosen | Some new_target \<Rightarrow> new_target))"
  using assms by (auto simp: unk_replace_body_def split: sum.splits)

lemma unk_replace_body_empty_source: "unk_replace_body [] m ''UNK'' scores \<noteq> Inr y"
  by (auto simp: unk_replace_body_def getitem_def split: sum.splits)

subsection \<open>Rows of the attention matrix and length of the prediction\<close>

text \<open>
  Claim C1 says that a call with fewer rows in \<^verbatim>\<open>attention_scores\<close> than tokens in
  \<^verbatim>\<open>predicted_tokens\<close> fails with a shape error and never returns a truncated output.
  The code pairs tokens and rows with \<^verbatim>\<open>zip\<close>, which stops at the shorter of the two:
  with two predicted tokens and one row the call returns the first token alone.
\<close>

theorem unk_replace_fewer_rows_counterexample:
  "unk_replace [''x''] [''a'', ''b''] [[1::real]] None = Inr [''a'']"
  by (simp add: unk_replace_def unk_replace_body_def np_array_def strip_trailing_nul_def)

text \<open>
  Claim C1 as amended: the number of rows is not checked. Every call behaves as the call
  on the first \<open>min T R\<close> tokens and the first \<open>min T R\<close> rows does, for \<open>T\<close> predicted tokens
  and \<open>R\<close> rows, and a call that returns gives an output of length \<open>min T R\<close>.
\<close>

theorem unk_replace_zip_truncates:
  "unk_replace src pred att m = unk_replace src (take (length att) pred) (take (length pred) att) m
   \<and> (unk_replace src pred att m = Inr out \<longrightarrow> length out = min (length pred) (length att))"
  using unk_replace_nth(1)[of src pred att m out]
  by (simp add: unk_replace_def zip_take_both)

theorem unk_replace_zip_truncates_witness:
  "unk_replace [''x''] [''a'', ''b''] [[1::real]] None = Inr [''a'']
   \<and> length [''a''] = min (length [''a'', ''b'']) (length [[1::real]])
   \<and> unk_replace [''x''] (take 1 [''a'', ''b'']) (take 2 [[1::real]]) None = Inr [''a'']"
proof -
  have h: "unk_replace [''x''] [''a'', ''b''] [[1::real]] None = Inr [''a'']"
    by (simp add: unk_replace_def unk_replace_body_def np_array_def strip_trailing_nul_def)
  show ?thesis
    using h unk_replace_zip_truncates [of "[''x'']" "[''a'', ''b'']" "[[1::real]]" None "[''a'']"]
    by simp
qed

text \<open>
  Claim C3: at a position that holds the sentinel, the source position chosen is the
  lowest index among the maxima of the row. \<^verbatim>\<open>np.argmax\<close> returns such an index for every
  row that is not empty, the token at the position in the returned array is the one
  derived from the source token at that index, and the row \<open>[0.5, 0.9, 0.9, 0.1]\<close> selects
  index 1.
\<close>

theorem unk_replace_argmax_lowest_index:
  "(scores \<noteq> [] \<longrightarrow> (\<exists>j. argmax scores = Inr j \<and> first_max scores j))
   \<and> (unk_replace src pred att m = Inr out \<and> t < length pred \<and> t < length att \<and> pred ! t = ''UNK''
        \<longrightarrow> (\<exists>j. argmax (att ! t) = Inr j \<and> first_max (att ! t) j \<and> j < length src
               \<and> out ! t = strip_trailing_nul
                            (case m of None \<Rightarrow> src ! j
                             | Some mp \<Rightarrow> (case mp (src ! j) of None \<Rightarrow> src ! j | Some new_target \<Rightarrow> new_target))))
   \<and> argmax [1/2, 9/10, 9/10, 1/10 :: real] = Inr 1"
proof (intro conjI impI)
  assume "scores \<noteq> []"
  then obtain j where "argmax scores = Inr j" by (cases scores) (auto simp: argmax_def)
  then show "\<exists>j. argmax scores = Inr j \<and> first_max scores j"
    using argmax_first_max by blast
next
  assume a: "unk_replace src pred att m = Inr out \<and> t < length pred \<and> t < length att \<and> pred ! t = ''UNK''"
  then obtain y where "unk_replace_body src m ''UNK'' (att ! t) = Inr y"
    and o: "out ! t = strip_trailing_nul y"
    using unk_replace_nth(2)[of src pred att m out t] by auto
  from unk_replace_body_unk[OF this(1)] obtain j chosen where
    j: "argmax (att ! t) = Inr j" and c: "getitem src j = Inr chosen" and
    y: "y = (case m of None \<Rightarrow> chosen
                | Some mp \<Rightarrow> (case mp chosen of None \<Rightarrow> chosen | Some new_target \<Rightarrow> new_target))"
    by blast
  from c have "j < length src" "chosen = src ! j"
    by (auto simp: getitem_def split: if_splits)
  with j y o argmax_first_max[OF j]
  show "\<exists>j. argmax (att ! t) = Inr j \<and> first_max (att ! t) j \<and> j < length src
               \<and> out ! t = strip_trailing_nul
                            (case m of None \<Rightarrow> src ! j
                             | Some mp \<Rightarrow> (case mp (src ! j) of None \<Rightarrow> src ! j | Some new_target \<Rightarrow> new_target))"
    by blast
next
  show "argmax [1/2, 9/10, 9/10, 1/10 :: real] = Inr 1"
    by (simp add: argmax_def)
qed

theorem unk_replace_argmax_lowest_index_witness:
  "first_max [1/2, 9/10, 9/10, 1/10 :: real] 1
   \<and> unk_replace [''a'', ''b'', ''c'', ''d''] [''UNK''] [[1/2, 9/10, 9/10, 1/10 :: real]] None
       = Inr [''b'']"
proof -
  have h: "unk_replace [''a'', ''b'', ''c'', ''d''] [''UNK''] [[1/2, 9/10, 9/10, 1/10 :: real]] None
             = Inr [''b'']"
    by (simp add: unk_replace_def unk_replace_body_def argmax_def getitem_def np_array_def
          strip_trailing_nul_def)
  have a: "argmax [1/2, 9/10, 9/10, 1/10 :: real] = Inr 1"
    by (simp add: argmax_def)
  from unk_replace_argmax_lowest_index
         [of "[1/2, 9/10, 9/10, 1/10 :: real]" "[''a'', ''b'', ''c'', ''d'']" "[''UNK'']"
             "[[1/2, 9/10, 9/10, 1/10 :: real]]" None "[''b'']" 0]
  have "[1/2, 9/10, 9/10, 1/10 :: real] \<noteq> []
          \<longrightarrow> (\<exists>j. argmax [1/2, 9/10, 9/10, 1/10 :: real] = Inr j
                 \<and> first_max [1/2, 9/10, 9/10, 1/10 :: real] j)"
    by (rule conjunct1)
  then obtain j where j: "argmax [1/2, 9/10, 9/10, 1/10 :: real] = Inr j"
    and f: "first_max [1/2, 9/10, 9/10, 1/10 :: real] j"
    by blast
  from j a have "j = 1" by simp
  with f h show ?thesis by simp
qed

subsection \<open>Tokens written at the sentinel and elsewhere\<close>

text \<open>
  Claim C5 says that at a position that holds the sentinel the output token is
  \<open>mapping[chosen]\<close> when a mapping is given and has \<open>chosen\<close> as a key, and \<open>chosen\<close>
  otherwise. The tokens are returned through \<^verbatim>\<open>np.array\<close>, which drops trailing NUL
  characters: with the mapping value \<open>y\<close> followed by a NUL character the output token
  is \<open>y\<close>.
\<close>

theorem unk_replace_mapping_nul_counterexample:
  "unk_replace [''x''] [''UNK''] [[1::real]] (Some [''x'' \<mapsto> [CHR ''y'', CHR 0x00]]) = Inr [''y'']
   \<and> [CHR ''y'', CHR 0x00] \<noteq> ''y''"
  by (simp add: unk_replace_def unk_replace_body_def argmax_def getitem_def np_array_def
        strip_trailing_nul_def)

text \<open>
  Claim C5 as amended: at a position \<open>t\<close> that holds the sentinel, with \<open>chosen\<close> the source
  token at the index that \<^verbatim>\<open>np.argmax\<close> returns for row \<open>t\<close>, the output token at \<open>t\<close> is
  \<open>mapping[chosen]\<close> without its trailing NUL characters when a mapping is given and has
  \<open>chosen\<close> as a key, and \<open>chosen\<close> without its trailing NUL characters when no mapping is
  given or \<open>chosen\<close> is not a key of it; it is \<open>mapping[chosen]\<close>, respectively \<open>chosen\<close>,
  itself when that string does not end in a NUL character.
\<close>

theorem unk_replace_mapping_fallback:
  assumes "unk_replace src pred att mapping = Inr out"
    and "t < length pred" and "t < length att" and "pred ! t = ''UNK''"
  shows "\<exists>j chosen. argmax (att ! t) = Inr j \<and> j < length src \<and> chosen = src ! j
           \<and> (\<forall>m v. mapping = Some m \<and> m chosen = Some v
                 \<longrightarrow> out ! t = strip_trailing_nul v \<and> (\<not> ends_in_nul v \<longrightarrow> out ! t = v))
           \<and> (mapping = None \<or> (\<exists>m. mapping = Some m \<and> chosen \<notin> dom m)
                 \<longrightarrow> out ! t = strip_trailing_nul chosen
                     \<and> (\<not> ends_in_nul chosen \<longrightarrow> out ! t = chosen))"
proof -
  from assms obtain y where "unk_replace_body src mapping ''UNK'' (att ! t) = Inr y"
    and o: "out ! t = strip_trailing_nul y"
    using unk_replace_nth(2)[of src pred att mapping out t] by auto
  from unk_replace_body_unk[OF this(1)] obtain j chosen where
    j: "argmax (att ! t) = Inr j" and c: "getitem src j = Inr chosen" and
    y: "y = (case mapping of None \<Rightarrow> chosen
                | Some mp \<Rightarrow> (case mp chosen of None \<Rightarrow> chosen | Some new_target \<Rightarrow> new_target))"
    by blast
  from c have s: "j < length src" "chosen = src ! j"
    by (auto simp: getitem_def split: if_splits)
  have 1: "\<forall>m v. mapping = Some m \<and> m chosen = Some v
                 \<longrightarrow> out ! t = strip_trailing_nul v \<and> (\<not> ends_in_nul v \<longrightarrow> out ! t = v)"
    using y o by (simp add: strip_trailing_nul_id)
  have 2: "mapping = None \<or> (\<exists>m. mapping = Some m \<and> chosen \<notin> dom m)
                 \<longrightarrow> out ! t = strip_trailing_nul chosen
                     \<and> (\<not> ends_in_nul chosen \<longrightarrow> out ! t = chosen)"
    using y o by (auto simp: domIff strip_trailing_nul_id)
  from j s 1 2 show ?thesis by blast
qed

theorem unk_replace_mapping_fallback_witness:
  "unk_replace [''paris'', ''france''] [''UNK'', ''is'', ''great'']
       [[1/10, 9/10], [1/2, 1/2], [1/2, 1/2 :: real]] (Some [''france'' \<mapsto> ''La France''])
     = Inr [''La France'', ''is'', ''great'']
   \<and> unk_replace [''paris'', ''france''] [''UNK'', ''is'', ''great'']
       [[1/10, 9/10], [1/2, 1/2], [1/2, 1/2 :: real]] None
     = Inr [''france'', ''is'', ''great'']
   \<and> argmax [1/10, 9/10 :: real] = Inr 1"
proof -
  let ?src = "[''paris'', ''france'']" and ?pred = "[''UNK'', ''is'', ''great'']"
  let ?att = "[[1/10, 9/10], [1/2, 1/2], [1/2, 1/2 :: real]]"
  have h1: "unk_replace ?src ?pred ?att (Some [''france'' \<mapsto> ''La France''])
              = Inr [''La France'', ''is'', ''great'']"
    by (simp add: unk_replace_def unk_replace_body_def argmax_def getitem_def np_array_def
          strip_trailing_nul_def)
  have h2: "unk_replace ?src ?pred ?att None = Inr [''france'', ''is'', ''great'']"
    by (simp add: unk_replace_def unk_replace_body_def argmax_def getitem_def np_array_def
          strip_trailing_nul_def)
  have p: "0 < length ?pred" "0 < length ?att" "?pred ! 0 = ''UNK''"
    by simp_all
  from unk_replace_mapping_fallback [OF h1 p]
  obtain j where j: "argmax (?att ! 0) = Inr j" and l: "j < length ?src"
    by blast
  have "argmax [1/10, 9/10 :: real] = Inr 1"
    by (simp add: argmax_def)
  with j have "j = 1" by simp
  with j h1 h2 show ?thesis by simp
qed

text \<open>
  Claim C9 says that every position whose predicted token is not the sentinel is passed
  through unchanged, for all values of the attention scores. A position that has no row
  in \<^verbatim>\<open>attention_scores\<close> is dropped from the output, and a token that ends in a NUL
  character loses it in \<^verbatim>\<open>np.array\<close>.
\<close>

theorem unk_replace_pass_through_counterexample:
  "unk_replace [''paris''] [''is'', ''great''] [[1/2 :: real]] None = Inr [''is'']
   \<and> unk_replace [''paris''] [[CHR ''a'', CHR 0x00]] [[1/2 :: real]] None = Inr [''a'']
   \<and> [CHR ''a'', CHR 0x00] \<noteq> ''a''"
  by (simp add: unk_replace_def unk_replace_body_def np_array_def strip_trailing_nul_def)

text \<open>
  Claim C9 as amended: the output of a call that returns has a position for each of the
  first \<open>min T R\<close> predicted tokens, for \<open>T\<close> predicted tokens and \<open>R\<close> rows, and every
  such position \<open>t\<close> whose predicted token is not the sentinel is passed through:
  \<open>output[t]\<close> is \<open>predicted_tokens[t]\<close> without its trailing NUL characters, hence
  \<open>predicted_tokens[t]\<close> unchanged when it does not end in a NUL character, whatever the
  source tokens, the scores and the mapping are.
\<close>

theorem unk_replace_pass_through:
  assumes "unk_replace src pred att mapping = Inr out"
    and "t < length pred" and "t < length att" and "pred ! t \<noteq> ''UNK''"
  shows "length out = min (length pred) (length att) \<and> t < length out
         \<and> out ! t = strip_trailing_nul (pred ! t)
         \<and> (\<not> ends_in_nul (pred ! t) \<longrightarrow> out ! t = pred ! t)"
proof -
  from assms unk_replace_nth(2)[of src pred att mapping out t]
  obtain y where "unk_replace_body src mapping (pred ! t) (att ! t) = Inr y"
    and o: "out ! t = strip_trailing_nul y" by auto
  with assms(4) have "y = pred ! t"
    by (simp add: unk_replace_body_pass)
  with o have 1: "out ! t = strip_trailing_nul (pred ! t)" by simp
  then have 2: "\<not> ends_in_nul (pred ! t) \<longrightarrow> out ! t = pred ! t"
    by (simp add: strip_trailing_nul_id)
  from assms unk_replace_nth(1)[of src pred att mapping out]
  have "length out = min (length pred) (length att)" "t < length out" by simp_all
  with 1 2 show ?thesis by simp
qed

theorem unk_replace_pass_through_witness:
  "unk_replace [''paris'', ''france''] [''UNK'', ''is'', ''great'']
       [[1/10, 9/10], [1/2, 1/2], [1/2, 1/2 :: real]] None
     = Inr [''france'', ''is'', ''great'']
   \<and> [''france'', ''is'', ''great''] ! 1 = [''UNK'', ''is'', ''great''] ! 1"
proof -
  have h: "unk_replace [''paris'', ''france''] [''UNK'', ''is'', ''great'']
       [[1/10, 9/10], [1/2, 1/2], [1/2, 1/2 :: real]] None
     = Inr [''france'', ''is'', ''great'']"
    by (simp add: unk_replace_def unk_replace_body_def argmax_def getitem_def np_array_def
          strip_trailing_nul_def)
  have n: "\<not> ends_in_nul ([''UNK'', ''is'', ''great''] ! 1)"
    by (simp add: ends_in_nul_def)
  from unk_replace_pass_through [OF h, of 1] n h show ?thesis by simp
qed

lemma zip_no_unk:
  assumes "\<not> (\<exists>t. t < length pred \<and> t < length att \<and> pred ! t = ''UNK'')"
  shows "\<forall>p\<in>set (zip pred att). fst p \<noteq> ''UNK''"
  using assms by (auto simp: set_zip)

lemma np_array_id: "\<forall>s\<in>set xs. \<not> ends_in_nul s \<Longrightarrow> np_array xs = xs"
  by (induction xs) (simp_all add: np_array_def strip_trailing_nul_id)

text \<open>
  Claim C10 says that a prediction without the sentinel is returned unchanged, with no
  exception, also for an empty \<^verbatim>\<open>source_tokens\<close>. With fewer rows than tokens the
  prediction is truncated: with two tokens, one row and an empty source the call returns
  the first token alone.
\<close>

theorem unk_replace_sentinel_free_counterexample:
  "unk_replace [] [''a'', ''b''] [[1::real]] None = Inr [''a'']"
  by (simp add: unk_replace_def unk_replace_body_def np_array_def strip_trailing_nul_def)

text \<open>
  Claim C10 as amended: when no predicted token is the sentinel, the call raises nothing,
  also for an empty \<^verbatim>\<open>source_tokens\<close>, and returns the first \<open>min T R\<close> predicted tokens,
  for \<open>T\<close> predicted tokens and \<open>R\<close> rows, each without its trailing NUL characters: the
  predicted tokens unchanged when every token has its row and none ends in a NUL
  character. With an empty \<^verbatim>\<open>source_tokens\<close> the call raises exactly when the sentinel
  occurs at a position that has a row: the empty source is not rejected up front.
\<close>

theorem unk_replace_sentinel_free:
  "(''UNK'' \<notin> set pred
      \<longrightarrow> unk_replace src pred att mapping = Inr (np_array (take (length att) pred)))
   \<and> (''UNK'' \<notin> set pred \<and> length pred \<le> length att \<and> (\<forall>s\<in>set pred. \<not> ends_in_nul s)
      \<longrightarrow> unk_replace src pred att mapping = Inr pred \<and> unk_replace [] pred att mapping = Inr pred)
   \<and> ((\<exists>e. unk_replace [] pred att mapping = Inl e)
        \<longleftrightarrow> (\<exists>t. t < length pred \<and> t < length att \<and> pred ! t = ''UNK''))"
proof (intro conjI impI iffI)
  assume "''UNK'' \<notin> set pred"
  then have "\<forall>p\<in>set (zip pred att). fst p \<noteq> ''UNK''"
    by (auto dest: set_zip_leftD)
  then show "unk_replace src pred att mapping = Inr (np_array (take (length att) pred))"
    by (simp add: unk_replace_def unk_replace_loop_no_unk map_fst_zip_take)
next
  assume a: "''UNK'' \<notin> set pred \<and> length pred \<le> length att \<and> (\<forall>s\<in>set pred. \<not> ends_in_nul s)"
  then have "\<forall>p\<in>set (zip pred att). fst p \<noteq> ''UNK''"
    by (auto dest: set_zip_leftD)
  then have "\<And>s. unk_replace s pred att mapping = Inr (np_array (take (length att) pred))"
    by (simp add: unk_replace_def unk_replace_loop_no_unk map_fst_zip_take)
  moreover from a have "np_array (take (length att) pred) = pred"
    by (simp add: np_array_id)
  ultimately show "unk_replace src pred att mapping = Inr pred"
    and "unk_replace [] pred att mapping = Inr pred" by simp_all
next
  assume e: "\<exists>e. unk_replace [] pred att mapping = Inl e"
  show "\<exists>t. t < length pred \<and> t < length att \<and> pred ! t = ''UNK''"
  proof (rule ccontr)
    assume "\<not> ?thesis"
    from zip_no_unk[OF this]
    have "unk_replace [] pred att mapping = Inr (np_array (take (length att) pred))"
      by (simp add: unk_replace_def unk_replace_loop_no_unk map_fst_zip_take)
    with e show False by simp
  qed
next
  assume "\<exists>t. t < length pred \<and> t < length att \<and> pred ! t = ''UNK''"
  then obtain t where t: "t < length pred" "t < length att" "pred ! t = ''UNK''" by blast
  show "\<exists>e. unk_replace [] pred att mapping = Inl e"
  proof (cases "unk_replace [] pred att mapping")
    case (Inl e)
    then show ?thesis by blast
  next
    case (Inr out)
    from unk_replace_nth(2)[OF Inr t(1,2)] t(3)
    obtain y where "unk_replace_body [] mapping ''UNK'' (att ! t) = Inr y" by auto
    then show ?thesis by (simp add: unk_replace_body_empty_source)
  qed
qed

theorem unk_replace_sentinel_free_witness:
  "unk_replace [] [''a'', ''b''] [[], [] :: real list] None = Inr [''a'', ''b'']
   \<and> unk_replace [] [''a'', ''UNK''] [[], [] :: real list] None = Inl ValueError"
proof -
  have h: "''UNK'' \<notin> set [''a'', ''b''] \<and> length [''a'', ''b''] \<le> length [[], [] :: real list]
           \<and> (\<forall>s\<in>set [''a'', ''b'']. \<not> ends_in_nul s)"
    by (simp add: ends_in_nul_def)
  have g: "unk_replace [] [''a'', ''UNK''] [[], [] :: real list] None = Inl ValueError"
    by (simp add: unk_replace_def unk_replace_body_def argmax_def)
  from unk_replace_sentinel_free
         [where pred = "[''a'', ''b'']" and att = "[[], [] :: real list]" and src = "[]"
            and mapping = None] h g
  show ?thesis by blast
qed

section \<open>Properties of \<^verbatim>\<open>create_predictions_iter\<close>\<close>

subsection \<open>One batch\<close>

lemma slice_at_eq:
  "slice_at b i =
     (if \<forall>value\<in>set (map snd b). i < length value then Inr (record_at b i) else Inl IndexError)"
  by (induction b) (force simp: getitem_def record_at_def)+

lemma yield_each_append:
  assumes "\<forall>i\<in>set is. slice_at b i = Inr (record_at b i)"
  shows "yield_each b (is @ js) =
           (map (record_at b) is @ fst (yield_each b js), snd (yield_each b js))"
  using assms by (induction "is") (auto split: prod.splits)

lemma yield_each_all:
  assumes "\<forall>i\<in>set is. slice_at b i = Inr (record_at b i)"
  shows "yield_each b is = (map (record_at b) is, None)"
  using yield_each_append[OF assms, of "[]"] by simp

lemma batch_length_Inr:
  "batch_length b = Inr n \<longleftrightarrow> b \<noteq> [] \<and> n = batch_size b"
  by (cases b) (auto simp: batch_length_def getitem_def batch_size_def)

lemma batch_length_Inl:
  "batch_length b = Inl e \<longleftrightarrow> b = [] \<and> e = IndexError"
  by (cases b) (auto simp: batch_length_def getitem_def)

lemma min_count_le:
  assumes "b \<noteq> []" and "value \<in> set (map snd b)"
  shows "min_count b \<le> length value"
  using assms unfolding min_count_def by (intro Min_le) auto

lemma min_count_in:
  assumes "b \<noteq> []"
  shows "\<exists>value\<in>set (map snd b). length value = min_count b"
proof -
  have "Min (set (map length (map snd b))) \<in> set (map length (map snd b))"
    using assms by (intro Min_in) auto
  then have "min_count b \<in> length ` set (map snd b)"
    by (simp only: min_count_def set_map)
  then obtain v where "v \<in> set (map snd b)" and "min_count b = length v"
    by (rule imageE)
  then show ?thesis by (intro bexI[of _ v]) simp_all
qed

lemma min_count_le_batch_size:
  assumes "b \<noteq> []"
  shows "min_count b \<le> batch_size b"
proof -
  obtain key "value" items where b: "b = (key, value) # items"
    using assms by (cases b) auto
  then have "value \<in> set (map snd b)" by simp
  from min_count_le[OF assms this] b show ?thesis by (simp add: batch_size_def)
qed

lemma slice_at_below_min:
  assumes "b \<noteq> []" and "i < min_count b"
  shows "slice_at b i = Inr (record_at b i)"
proof -
  have "\<forall>value\<in>set (map snd b). i < length value"
    using min_count_le[OF assms(1)] assms(2) by fastforce
  then show ?thesis by (simp add: slice_at_eq)
qed

lemma slice_at_min:
  assumes "b \<noteq> []"
  shows "slice_at b (min_count b) = Inl IndexError"
proof -
  from min_count_in[OF assms] have "\<not> (\<forall>value\<in>set (map snd b). min_count b < length value)"
    by fastforce
  then show ?thesis by (simp add: slice_at_eq)
qed

lemma flatten_batch_eq:
  assumes "b \<noteq> []"
  shows "flatten_batch b =
           (map (record_at b) [0..<min_count b],
            if min_count b < batch_size b then Some IndexError else None)"
proof -
  have ok: "\<forall>i\<in>set [0..<min_count b]. slice_at b i = Inr (record_at b i)"
    using slice_at_below_min[OF assms] by simp
  have len: "batch_length b = Inr (batch_size b)"
    using assms by (simp add: batch_length_Inr)
  show ?thesis
  proof (cases "min_count b < batch_size b")
    case True
    then have "[0..<batch_size b] = [0..<min_count b] @ min_count b # [Suc (min_count b)..<batch_size b]"
      by (metis less_imp_le_nat upt_add_eq_append upt_conv_Cons le0 le_add_diff_inverse)
    then have "yield_each b [0..<batch_size b] =
        (map (record_at b) [0..<min_count b]
           @ fst (yield_each b (min_count b # [Suc (min_count b)..<batch_size b])),
         snd (yield_each b (min_count b # [Suc (min_count b)..<batch_size b])))"
      using yield_each_append[OF ok] by simp
    with True len show ?thesis
      by (simp add: flatten_batch_def slice_at_min[OF assms])
  next
    case False
    with min_count_le_batch_size[OF assms] have "min_count b = batch_size b" by simp
    with ok len False show ?thesis
      by (simp add: flatten_batch_def yield_each_all)
  qed
qed

lemma consistent_min_count:
  assumes "consistent_batch b"
  shows "min_count b = batch_size b"
proof -
  from assms have ne: "b \<noteq> []" by (simp add: consistent_batch_def)
  from min_count_in[OF ne] assms show ?thesis
    by (auto simp: consistent_batch_def)
qed

lemma flatten_batch_consistent:
  assumes "consistent_batch b"
  shows "flatten_batch b = (records_of b, None)"
proof -
  from assms have ne: "b \<noteq> []" by (simp add: consistent_batch_def)
  from flatten_batch_eq[OF ne] consistent_min_count[OF assms] show ?thesis
    by (simp add: records_of_def)
qed

lemma predictions_loop_consistent:
  assumes "\<forall>b\<in>set bs. consistent_batch b"
  shows "predictions_loop bs final = (concat (map records_of bs), except_out_of_range final)"
  using assms by (induction bs) (simp_all add: flatten_batch_consistent)

lemma length_concat_records:
  "length (concat (map records_of bs)) = sum_list (map batch_size bs)"
  by (induction bs) (simp_all add: records_of_def)

lemma flatten_batch_empty:
  assumes "batch_length b = Inr 0"
  shows "flatten_batch b = ([], None)"
  using assms by (simp add: flatten_batch_def)

lemma predictions_loop_skip_empty:
  assumes "batch_length b = Inr 0"
  shows "predictions_loop (pre @ b # later) final = predictions_loop (pre @ later) final"
  by (induction pre) (simp_all add: flatten_batch_empty[OF assms])

subsection \<open>Order of the records\<close>

text \<open>
  Claim C2: for batches \<open>B1..Bn\<close> with batch sizes \<open>s1..sn\<close> fetched before the session is
  exhausted, the generator yields exactly \<open>s1 + ... + sn\<close> records: the records of \<open>B1\<close>,
  then those of \<open>B2\<close>, and so on, and within a batch the records of the indices
  \<open>0..si - 1\<close> in that order, each holding the slice at its index of every field.
\<close>

theorem create_predictions_iter_order:
  assumes "\<forall>b\<in>set bs. consistent_batch b"
  shows "create_predictions_iter \<lparr>fetched = bs, raises = OutOfRangeError\<rparr>
           = (concat (map records_of bs), None)
         \<and> length (fst (create_predictions_iter \<lparr>fetched = bs, raises = OutOfRangeError\<rparr>))
           = sum_list (map batch_size bs)"
  using predictions_loop_consistent[OF assms, of OutOfRangeError]
  by (simp add: create_predictions_iter_def except_out_of_range_def length_concat_records)

theorem create_predictions_iter_order_witness:
  "consistent_batch [(''a'', [1, 5 :: nat]), (''b'', [2, 3])]
   \<and> consistent_batch [(''a'', [7 :: nat]), (''b'', [8])]
   \<and> create_predictions_iter
        \<lparr>fetched = [[(''a'', [1, 5 :: nat]), (''b'', [2, 3])], [(''a'', [7]), (''b'', [8])]],
         raises = OutOfRangeError\<rparr>
       = ([[(''a'', 1), (''b'', 2)], [(''a'', 5), (''b'', 3)], [(''a'', 7), (''b'', 8)]], None)"
proof -
  have h1: "consistent_batch [(''a'', [1, 5 :: nat]), (''b'', [2, 3])]"
    and h2: "consistent_batch [(''a'', [7 :: nat]), (''b'', [8])]"
    by (simp_all add: consistent_batch_def batch_size_def)
  then have h: "\<forall>b\<in>set [[(''a'', [1, 5 :: nat]), (''b'', [2, 3])], [(''a'', [7]), (''b'', [8])]].
                  consistent_batch b"
    by simp
  from create_predictions_iter_order [OF h] h1 h2 show ?thesis
    by (simp add: records_of_def record_at_def batch_size_def)
qed

subsection \<open>Exhaustion and empty batches\<close>

text \<open>
  Claim C4: when the session signals exhaustion with OutOfRangeError, the generator ends
  normally, with no exception; a batch of size 0, anywhere in the stream, contributes no
  record and does not end the stream; and batches of sizes 2, 0 and 3 followed by
  exhaustion give exactly 5 records and a normal end.
\<close>

theorem create_predictions_iter_exhaustion:
  "((\<forall>b\<in>set bs. consistent_batch b)
      \<longrightarrow> snd (create_predictions_iter \<lparr>fetched = bs, raises = OutOfRangeError\<rparr>) = None)
   \<and> (batch_length b = Inr 0
      \<longrightarrow> create_predictions_iter \<lparr>fetched = pre @ b # later, raises = final\<rparr>
          = create_predictions_iter \<lparr>fetched = pre @ later, raises = final\<rparr>)
   \<and> (consistent_batch b1 \<and> batch_size b1 = 2 \<and> consistent_batch b2 \<and> batch_size b2 = 0
        \<and> consistent_batch b3 \<and> batch_size b3 = 3
      \<longrightarrow> length (fst (create_predictions_iter \<lparr>fetched = [b1, b2, b3], raises = OutOfRangeError\<rparr>)) = 5
          \<and> snd (create_predictions_iter \<lparr>fetched = [b1, b2, b3], raises = OutOfRangeError\<rparr>) = None)"
proof (intro conjI impI)
  assume "\<forall>b\<in>set bs. consistent_batch b"
  from predictions_loop_consistent[OF this, of OutOfRangeError]
  show "snd (create_predictions_iter \<lparr>fetched = bs, raises = OutOfRangeError\<rparr>) = None"
    by (simp add: create_predictions_iter_def except_out_of_range_def)
next
  assume "batch_length b = Inr 0"
  from predictions_loop_skip_empty[OF this]
  show "create_predictions_iter \<lparr>fetched = pre @ b # later, raises = final\<rparr>
          = create_predictions_iter \<lparr>fetched = pre @ later, raises = final\<rparr>"
    by (simp add: create_predictions_iter_def)
next
  assume a: "consistent_batch b1 \<and> batch_size b1 = 2 \<and> consistent_batch b2 \<and> batch_size b2 = 0
        \<and> consistent_batch b3 \<and> batch_size b3 = 3"
  then have "\<forall>b\<in>set [b1, b2, b3]. consistent_batch b" by simp
  from predictions_loop_consistent[OF this, of OutOfRangeError]
  have e: "create_predictions_iter \<lparr>fetched = [b1, b2, b3], raises = OutOfRangeError\<rparr>
             = (concat (map records_of [b1, b2, b3]), None)"
    by (simp add: create_predictions_iter_def except_out_of_range_def)
  have "length (concat (map records_of [b1, b2, b3])) = sum_list (map batch_size [b1, b2, b3])"
    by (rule length_concat_records)
  with a have "length (concat (map records_of [b1, b2, b3])) = 5"
    by simp
  with e show "length (fst (create_predictions_iter \<lparr>fetched = [b1, b2, b3], raises = OutOfRangeError\<rparr>)) = 5"
    by simp
  from e show "snd (create_predictions_iter \<lparr>fetched = [b1, b2, b3], raises = OutOfRangeError\<rparr>) = None"
    by simp
qed

theorem create_predictions_iter_exhaustion_witness:
  "length (fst (create_predictions_iter
      \<lparr>fetched = [[(''a'', [1, 5 :: nat]), (''b'', [2, 3])], [(''a'', []), (''b'', [])],
                  [(''a'', [7, 8, 9]), (''b'', [4, 5, 6])]],
       raises = OutOfRangeError\<rparr>)) = 5
   \<and> snd (create_predictions_iter
      \<lparr>fetched = [[(''a'', [1, 5 :: nat]), (''b'', [2, 3])], [(''a'', []), (''b'', [])],
                  [(''a'', [7, 8, 9]), (''b'', [4, 5, 6])]],
       raises = OutOfRangeError\<rparr>) = None
   \<and> batch_length [(''a'', [] :: nat list), (''b'', [])] = Inr 0"
proof -
  let ?b1 = "[(''a'', [1, 5 :: nat]), (''b'', [2, 3])]"
  let ?b2 = "[(''a'', [] :: nat list), (''b'', [])]"
  let ?b3 = "[(''a'', [7, 8, 9 :: nat]), (''b'', [4, 5, 6])]"
  have h: "consistent_batch ?b1 \<and> batch_size ?b1 = 2 \<and> consistent_batch ?b2 \<and> batch_size ?b2 = 0
        \<and> consistent_batch ?b3 \<and> batch_size ?b3 = 3"
    by (simp add: consistent_batch_def batch_size_def)
  have z: "batch_length ?b2 = Inr 0"
    by (simp add: batch_length_def getitem_def)
  from create_predictions_iter_exhaustion
         [of "[?b1, ?b2, ?b3]" ?b2 "[?b1]" "[?b3]" OutOfRangeError ?b1 ?b2 ?b3] h
  have "length (fst (create_predictions_iter
                       \<lparr>fetched = [?b1, ?b2, ?b3], raises = OutOfRangeError\<rparr>)) = 5
        \<and> snd (create_predictions_iter
                 \<lparr>fetched = [?b1, ?b2, ?b3], raises = OutOfRangeError\<rparr>) = None"
    by blast
  with z show ?thesis by blast
qed

subsection \<open>Fields that disagree on the leading count\<close>

text \<open>
  Claim C6 says that a batch whose fields disagree on the leading count makes the
  generator fail, whichever field diverges, and that no record is produced from it.
  The code takes the count of the first field and never compares the fields: when the
  second field is longer than the first, a record is yielded and nothing is raised.
\<close>

theorem create_predictions_iter_inconsistent_counterexample:
  "create_predictions_iter
      \<lparr>fetched = [[(''a'', [1 :: nat]), (''b'', [2, 3])]], raises = OutOfRangeError\<rparr>
     = ([[(''a'', 1), (''b'', 2)]], None)"
  by (simp add: create_predictions_iter_def flatten_batch_def batch_length_def getitem_def
        except_out_of_range_def)

text \<open>
  Claim C6 as amended: the batch size is the leading count \<open>n\<close> of the first field of the
  batch, and the fields are not compared. When no field has fewer than \<open>n\<close> entries, the
  generator yields the \<open>n\<close> records of the indices \<open>0..n - 1\<close>, ignoring the entries of
  longer fields beyond \<open>n\<close>, raises nothing and goes on with the next batch. When some
  field has fewer than \<open>n\<close> entries, the generator yields the records of the indices below
  the smallest leading count and then raises IndexError.
\<close>

theorem create_predictions_iter_first_field_count:
  assumes "batch_length b = Inr n"
  shows "min_count b \<le> n
         \<and> create_predictions_iter \<lparr>fetched = b # later, raises = final\<rparr> =
           (if min_count b < n then (map (record_at b) [0..<min_count b], Some IndexError)
            else (map (record_at b) [0..<n]
                    @ fst (create_predictions_iter \<lparr>fetched = later, raises = final\<rparr>),
                  snd (create_predictions_iter \<lparr>fetched = later, raises = final\<rparr>)))"
proof -
  from assms have ne: "b \<noteq> []" and n: "n = batch_size b"
    by (simp_all add: batch_length_Inr)
  have le: "min_count b \<le> n"
    using min_count_le_batch_size[OF ne] n by simp
  show ?thesis
  proof (cases "min_count b < n")
    case True
    with flatten_batch_eq[OF ne] n le show ?thesis
      by (simp add: create_predictions_iter_def except_out_of_range_def)
  next
    case False
    with le have "min_count b = n" by simp
    with flatten_batch_eq[OF ne] n le show ?thesis
      by (simp add: create_predictions_iter_def split: prod.splits)
  qed
qed

theorem create_predictions_iter_first_field_count_witness:
  "batch_length [(''a'', [1, 5 :: nat]), (''b'', [2])] = Inr 2
   \<and> create_predictions_iter
        \<lparr>fetched = [[(''a'', [1, 5 :: nat]), (''b'', [2])]], raises = OutOfRangeError\<rparr>
       = ([[(''a'', 1), (''b'', 2)]], Some IndexError)"
proof -
  have h: "batch_length [(''a'', [1, 5 :: nat]), (''b'', [2])] = Inr 2"
    by (simp add: batch_length_def getitem_def)
  have m: "min_count [(''a'', [1, 5 :: nat]), (''b'', [2])] = 1"
    by (simp add: min_count_def)
  from create_predictions_iter_first_field_count [OF h, of "[]" OutOfRangeError] h m
  show ?thesis by (simp add: record_at_def)
qed

section \<open>Properties of \<^verbatim>\<open>get_unk_mapping\<close>\<close>

subsection \<open>Lines, fields and dictionaries\<close>

lemma str_split_nonempty: "str_split sep s \<noteq> []"
  by (induction s) auto

lemma length_str_split: "length (str_split sep s) = Suc (length (filter (\<lambda>c. c = sep) s))"
proof (induction s)
  case Nil
  then show ?case by simp
next
  case (Cons c s)
  have "length (tl (str_split sep s)) = length (str_split sep s) - 1" by simp
  with Cons str_split_nonempty[of sep s] show ?case
    by (cases "str_split sep s") auto
qed

lemma dict_from_bad_element:
  assumes "elem \<in> set seq" and "length elem \<noteq> 2"
  shows "dict_from d seq = Inl ValueError"
  using assms
proof (induction seq arbitrary: d)
  case Nil
  then show ?case by simp
next
  case (Cons x seq)
  show ?case
  proof (cases "length x = 2")
    case True
    then obtain k v where x: "x = [k, v]"
      by (cases x; cases "tl x") auto
    with True Cons have "elem \<in> set seq" by auto
    from Cons.IH[OF this Cons.prems(2)] x show ?thesis by simp
  next
    case False
    then show ?thesis by (auto split: list.splits)
  qed
qed

lemma fewer_than_two_fields: "length (str_split sep s) < 2 \<longleftrightarrow> sep \<notin> set s"
  by (auto simp: length_str_split filter_empty_conv)

lemma map_of_setitem: "map_of (setitem d k v) = (map_of d)(k \<mapsto> v)"
  by (induction d k v rule: setitem.induct) (auto simp: fun_eq_iff)

lemma keys_setitem:
  "map fst (setitem d k v) = (if k \<in> set (map fst d) then map fst d else map fst d @ [k])"
  by (induction d k v rule: setitem.induct) auto

lemma distinct_setitem: "distinct (map fst d) \<Longrightarrow> distinct (map fst (setitem d k v))"
  by (simp add: keys_setitem)

lemma dict_from_Inr:
  assumes "dict_from d0 (map (\<lambda>l. take 2 (str_split CHR 0x09 l)) lines) = Inr m"
  shows "m = fold (\<lambda>l d. setitem d (raw_source l) (raw_target l)) lines d0"
  using assms
proof (induction lines arbitrary: d0)
  case Nil
  then show ?case by simp
next
  case (Cons l lines)
  have "2 \<le> length (str_split CHR 0x09 l)"
  proof (rule ccontr)
    assume "\<not> 2 \<le> length (str_split CHR 0x09 l)"
    then have "length (take 2 (str_split CHR 0x09 l)) \<noteq> 2" by simp
    from dict_from_bad_element[OF _ this, of "map (\<lambda>l. take 2 (str_split CHR 0x09 l)) (l # lines)" d0]
    show False using Cons.prems by simp
  qed
  then obtain a b rest where sp: "str_split CHR 0x09 l = a # b # rest"
    by (cases "str_split CHR 0x09 l"; cases "tl (str_split CHR 0x09 l)") auto
  then have t: "take 2 (str_split CHR 0x09 l) = [raw_source l, raw_target l]"
    by (simp add: raw_source_def raw_target_def)
  from Cons.prems t
  have "dict_from (setitem d0 (raw_source l) (raw_target l))
          (map (\<lambda>l. take 2 (str_split CHR 0x09 l)) lines) = Inr m"
    by simp
  from Cons.IH[OF this] show ?case by simp
qed

lemma map_of_fold_setitem:
  "map_of (fold (\<lambda>l d. setitem d (f l) (g l)) ls d0)
     = map_of d0 ++ map_of (rev (map (\<lambda>l. (f l, g l)) ls))"
proof (induction ls arbitrary: d0)
  case Nil
  then show ?case by simp
next
  case (Cons l ls)
  show ?case
    by (auto simp: Cons.IH map_of_setitem fun_eq_iff map_add_def split: option.splits)
qed

lemma distinct_fold_setitem:
  "distinct (map fst d0) \<Longrightarrow> distinct (map fst (fold (\<lambda>l d. setitem d (f l) (g l)) ls d0))"
  by (induction ls arbitrary: d0) (simp_all add: distinct_setitem)

lemma strip_items_fold:
  "strip_items d its = fold (\<lambda>p d. setitem d (str_strip (fst p)) (str_strip (snd p))) its d"
  by (induction d its rule: strip_items.induct) simp_all

lemma keys_fold_first_occurrences:
  "map fst (fold (\<lambda>l d. setitem d (f l) (g l)) ls d0)
     = map fst d0 @ filter (\<lambda>y. y \<notin> set (map fst d0)) (first_occurrences (map f ls))"
proof (induction ls arbitrary: d0)
  case Nil
  then show ?case by simp
next
  case (Cons l ls)
  show ?case
  proof (cases "f l \<in> set (map fst d0)")
    case True
    then have k: "map fst (setitem d0 (f l) (g l)) = map fst d0"
      by (simp add: keys_setitem)
    have "filter (\<lambda>y. y \<notin> set (map fst d0)) (filter (\<lambda>y. y \<noteq> f l) (first_occurrences (map f ls)))
            = filter (\<lambda>y. y \<notin> set (map fst d0)) (first_occurrences (map f ls))"
      unfolding filter_filter using True by (intro filter_cong) auto
    with True k Cons.IH[of "setitem d0 (f l) (g l)"] show ?thesis
      by simp
  next
    case False
    then have k: "map fst (setitem d0 (f l) (g l)) = map fst d0 @ [f l]"
      by (simp add: keys_setitem)
    have "filter (\<lambda>y. y \<notin> set (map fst d0 @ [f l])) (first_occurrences (map f ls))
            = filter (\<lambda>y. y \<notin> set (map fst d0)) (filter (\<lambda>y. y \<noteq> f l) (first_occurrences (map f ls)))"
      unfolding filter_filter by (intro filter_cong) auto
    with False k Cons.IH[of "setitem d0 (f l) (g l)"] show ?thesis
      by simp
  qed
qed

lemma map_of_rev_items:
  assumes "distinct (map fst m)"
  shows "map_of (map (\<lambda>p. (f (fst p), g (snd p))) (rev m)) k
           = (if filter (\<lambda>r. f r = k) (map fst m) = [] then None
              else map_option g (map_of m (last (filter (\<lambda>r. f r = k) (map fst m)))))"
  using assms
proof (induction m rule: rev_induct)
  case Nil
  then show ?case by simp
next
  case (snoc p m)
  obtain r v where p: "p = (r, v)" by (cases p)
  define ks where "ks = filter (\<lambda>r. f r = k) (map fst m)"
  from snoc.prems p have d: "distinct (map fst m)" and n: "r \<notin> set (map fst m)"
    by simp_all
  from n have none: "map_of m r = None"
    by (simp add: map_of_eq_None_iff)
  have IH: "map_of (map (\<lambda>p. (f (fst p), g (snd p))) (rev m)) k
              = (if ks = [] then None else map_option g (map_of m (last ks)))"
    unfolding ks_def by (rule snoc.IH[OF d])
  have items: "map (\<lambda>p. (f (fst p), g (snd p))) (rev (m @ [p]))
                 = (f r, g v) # map (\<lambda>p. (f (fst p), g (snd p))) (rev m)"
    by (simp add: p)
  have keys: "filter (\<lambda>r. f r = k) (map fst (m @ [p])) = ks @ (if f r = k then [r] else [])"
    by (simp add: p ks_def)
  have look: "map_of (m @ [p]) x = (case map_of m x of None \<Rightarrow> [r \<mapsto> v] x | Some w \<Rightarrow> Some w)" for x
    by (simp add: p map_add_def)
  show ?case
  proof (cases "f r = k")
    case True
    have "map_of (m @ [p]) r = Some v"
      by (simp only: look none option.case) simp
    with True show ?thesis
      by (simp only: items keys) simp
  next
    case False
    show ?thesis
    proof (cases "ks = []")
      case True
      with False IH show ?thesis
        by (simp only: items keys) simp
    next
      case ne: False
      then have "last ks \<in> set ks"
        by (rule last_in_set)
      then have "last ks \<in> set (map fst m)"
        by (simp add: ks_def)
      then have "map_of m (last ks) \<noteq> None"
        by (simp add: map_of_eq_None_iff)
      then obtain w where w: "map_of m (last ks) = Some w"
        by blast
      then have "map_of (m @ [p]) (last ks) = Some w"
        by (simp only: look option.case)
      with ne False IH w show ?thesis
        by (simp only: items keys) simp
    qed
  qed
qed

lemma map_of_found:
  "map_of (map (\<lambda>l. (f l, h l)) ps) k = Some r \<Longrightarrow> \<exists>l\<in>set ps. f l = k \<and> h l = r"
  by (induction ps) (auto split: if_splits)

lemma map_of_through_spelling:
  "map_of (map (\<lambda>l. (c (rs l), t l)) ps) k
     = (case map_of (map (\<lambda>l. (c (rs l), rs l)) ps) k of
          None \<Rightarrow> None
        | Some r \<Rightarrow> map_of (map (\<lambda>l. (rs l, t l)) ps) r)"
proof (induction ps)
  case Nil
  then show ?case by simp
next
  case (Cons l ps)
  show ?case
  proof (cases "c (rs l) = k")
    case True
    then show ?thesis by simp
  next
    case False
    show ?thesis
    proof (cases "map_of (map (\<lambda>l. (c (rs l), rs l)) ps) k")
      case None
      with False Cons.IH show ?thesis by simp
    next
      case (Some r)
      from map_of_found[OF Some] have "c r = k" by auto
      with False have "rs l \<noteq> r" by auto
      with False Some Cons.IH show ?thesis by simp
    qed
  qed
qed

subsection \<open>Malformed lines\<close>

text \<open>
  Claim C7: when some line of the file has fewer than two tab-separated fields, the call
  fails with an exception and returns no table, whatever the other lines are: the
  malformed line is not skipped and no partial table is returned.
\<close>

theorem get_unk_mapping_malformed_line:
  assumes "l \<in> set lines" and "length (str_split CHR 0x09 l) < 2"
  shows "get_unk_mapping lines = Inl ValueError"
proof -
  let ?seq = "map (\<lambda>l. take 2 (str_split CHR 0x09 l)) lines"
  from assms(1) have "take 2 (str_split CHR 0x09 l) \<in> set ?seq" by simp
  moreover from assms(2) have "length (take 2 (str_split CHR 0x09 l)) \<noteq> 2" by simp
  ultimately have "dict_from [] ?seq = Inl ValueError"
    by (rule dict_from_bad_element)
  then show ?thesis by (simp add: get_unk_mapping_def)
qed

theorem get_unk_mapping_malformed_line_witness:
  "length (str_split CHR 0x09 ''b'') < 2
   \<and> get_unk_mapping [mapping_line ''a'' ''X'', ''b'', mapping_line ''c'' ''Z''] = Inl ValueError"
proof -
  have h: "length (str_split CHR 0x09 ''b'') < 2" by simp
  have m: "''b'' \<in> set [mapping_line ''a'' ''X'', ''b'', mapping_line ''c'' ''Z'']" by simp
  from get_unk_mapping_malformed_line [OF m h] h show ?thesis by simp
qed

subsection \<open>Duplicate source tokens\<close>

text \<open>
  Claim C8 says that when the same source token, after trimming, is the key of several
  lines, the table gives it the target of the last of these lines. The dictionary is
  built on the untrimmed keys and trimmed afterwards, in the order in which the untrimmed
  keys were first inserted: with the lines \<open>" a" X\<close>, \<open>"a" Y\<close>, \<open>" a" Z\<close> the last line
  for the token \<open>a\<close> has the target \<open>Z\<close>, and the table maps \<open>a\<close> to \<open>Y\<close>.
\<close>

theorem get_unk_mapping_trimmed_duplicates_counterexample:
  "get_unk_mapping [mapping_line '' a'' ''X'', mapping_line ''a'' ''Y'', mapping_line '' a'' ''Z'']
     = Inr [(''a'', ''Y'')]
   \<and> last_line_wins [mapping_line '' a'' ''X'', mapping_line ''a'' ''Y'', mapping_line '' a'' ''Z''] ''a''
     = Some ''Z''"
  by (simp add: get_unk_mapping_def last_line_wins_def mapping_line_def line_source_def
        line_target_def raw_source_def raw_target_def str_strip_def isspace_def)

text \<open>
  Claim C8 as amended: in the table that \<^verbatim>\<open>get_unk_mapping\<close> returns, the value of a source
  token \<open>k\<close> is the trimmed target of the last line whose untrimmed first field is the
  newest spelling of \<open>k\<close>, the spelling of \<open>k\<close> whose first occurrence in the file is the
  latest (and \<open>k\<close> is not a key when no line has it). Hence the value of \<open>k\<close> is the target
  of the last line for \<open>k\<close>, later occurrences overwriting earlier ones, whenever that last
  line is written with the newest spelling of \<open>k\<close>: always when \<open>k\<close> has one spelling, and
  with several spellings unless the last line comes back to a spelling older than another.
\<close>

theorem get_unk_mapping_last_line_wins:
  assumes "get_unk_mapping lines = Inr d"
  shows "map_of d k = (case newest_spelling lines k of
                         None \<Rightarrow> None
                       | Some r \<Rightarrow> last_line_spelled lines r)
         \<and> (last_spelling lines k = newest_spelling lines k
              \<longrightarrow> map_of d k = last_line_wins lines k)"
proof -
  let ?raw = "map (\<lambda>l. (raw_source l, raw_target l)) lines"
  let ?strip = "\<lambda>p. (str_strip (fst p), str_strip (snd p))"
  from assms obtain m
    where m0: "dict_from [] (map (\<lambda>l. take 2 (str_split CHR 0x09 l)) lines) = Inr m"
      and d: "d = strip_items [] m"
    by (auto simp: get_unk_mapping_def split: sum.splits)
  from dict_from_Inr[OF m0]
  have m: "m = fold (\<lambda>l d. setitem d (raw_source l) (raw_target l)) lines []" .
  have lookup_m: "map_of m = map_of (rev ?raw)"
    unfolding m by (simp add: map_of_fold_setitem)
  have dist_m: "distinct (map fst m)"
    unfolding m by (rule distinct_fold_setitem) simp
  have keys_m: "map fst m = first_occurrences (map raw_source lines)"
    unfolding m by (simp add: keys_fold_first_occurrences)
  have lookup_d: "map_of d = map_of (map ?strip (rev m))"
    unfolding d strip_items_fold by (simp add: map_of_fold_setitem rev_map)
  have spelled: "map_option str_strip (map_of m r) = last_line_spelled lines r" for r
  proof -
    have "last_line_spelled lines = map_of (map (\<lambda>(a, b). (a, str_strip b)) (rev ?raw))"
      by (simp add: last_line_spelled_def line_target_def rev_map comp_def)
    also have "\<dots> = map_option str_strip \<circ> map_of (rev ?raw)"
      by (rule map_of_map)
    finally show ?thesis by (simp add: lookup_m)
  qed
  have "map_of d k = (if filter (\<lambda>r. str_strip r = k) (map fst m) = [] then None
                      else map_option str_strip
                             (map_of m (last (filter (\<lambda>r. str_strip r = k) (map fst m)))))"
    unfolding lookup_d by (rule map_of_rev_items[OF dist_m])
  then have exact: "map_of d k = (case newest_spelling lines k of
                         None \<Rightarrow> None
                       | Some r \<Rightarrow> last_line_spelled lines r)"
    by (simp add: keys_m newest_spelling_def spellings_def spelled)
  have wins: "last_line_wins lines k = (case last_spelling lines k of
                         None \<Rightarrow> None
                       | Some r \<Rightarrow> last_line_spelled lines r)"
    unfolding last_line_wins_def last_spelling_def last_line_spelled_def line_source_def rev_map
    by (rule map_of_through_spelling)
  from exact wins show ?thesis by simp
qed

theorem get_unk_mapping_last_line_wins_witness:
  "get_unk_mapping [mapping_line ''c '' ''4'', mapping_line ''b'' ''Q'', mapping_line ''c'' ''5'']
     = Inr [(''c'', ''5''), (''b'', ''Q'')]
   \<and> last_spelling [mapping_line ''c '' ''4'', mapping_line ''b'' ''Q'', mapping_line ''c'' ''5''] ''c''
     = Some ''c''
   \<and> newest_spelling [mapping_line ''c '' ''4'', mapping_line ''b'' ''Q'', mapping_line ''c'' ''5''] ''c''
     = Some ''c''
   \<and> last_line_wins [mapping_line ''c '' ''4'', mapping_line ''b'' ''Q'', mapping_line ''c'' ''5''] ''c''
     = Some ''5''"
proof -
  let ?L = "[mapping_line ''c '' ''4'', mapping_line ''b'' ''Q'', mapping_line ''c'' ''5'']"
  have h: "get_unk_mapping ?L = Inr [(''c'', ''5''), (''b'', ''Q'')]"
    by (simp add: get_unk_mapping_def mapping_line_def str_strip_def isspace_def)
  have l: "last_spelling ?L ''c'' = Some ''c''"
    by (simp add: last_spelling_def mapping_line_def line_source_def raw_source_def
          str_strip_def isspace_def)
  have n: "newest_spelling ?L ''c'' = Some ''c''"
    by (simp add: newest_spelling_def spellings_def mapping_line_def raw_source_def
          str_strip_def isspace_def)
  from get_unk_mapping_last_line_wins [OF h, of "''c''"]
  have "last_spelling ?L ''c'' = newest_spelling ?L ''c''
          \<longrightarrow> map_of [(''c'', ''5''), (''b'', ''Q'')] ''c'' = last_line_wins ?L ''c''"
    by (rule conjunct2)
  with l n have "map_of [(''c'', ''5''), (''b'', ''Q'')] ''c'' = last_line_wins ?L ''c''"
    by simp
  then have "last_line_wins ?L ''c'' = Some ''5''" by simp
  with h l n show ?thesis by simp
qed

end
